theory Spec2Isabelle
  imports Main "HOL-Library.Word" "HOL-Library.Sublist"
begin

section \<open>Data model of \<open>main.go\<close>\<close>

text \<open>
  Go's \<open>uint64\<close> is a 64-bit word: addition and subtraction wrap modulo \<open>2 ^ 64\<close>,
  comparison is unsigned.  Go strings are byte sequences, i.e. \<open>char list\<close>.
\<close>

type_synonym uint64 = "64 word"

definition STATUS_PLAY :: uint64 where "STATUS_PLAY = 0x100"
definition STATUS_PAUSE :: uint64 where "STATUS_PAUSE = 0x200"

text \<open>\<open>type Exception interface{}\<close>: the recovered panic value; only its text is kept.\<close>

type_synonym Exception = string

text \<open>
  The JSON types.  Record fields are global names in Isabelle, so the fields of each Go
  struct carry a short prefix of the struct's name (\<open>Audio.TrackUid\<close> is
  \<open>au_TrackUid\<close>, \<open>Stat.FinishSong\<close> is \<open>st_FinishSong\<close>, ...).
\<close>

record TrackInfo__Result__About__Audio =
  au_TrackUid :: uint64
  au_Filename :: string

record TrackInfo__Result__About__Album =
  al_Title :: string
  al_ReleaseDate :: string

record TrackInfo__Result__Stat =
  st_StartSong :: uint64
  st_FinishSong :: uint64
  st_ServerTime :: uint64

record TrackInfo__Result__About =
  ab_Title :: string
  ab_Artist :: string
  ab_Audio :: "TrackInfo__Result__About__Audio list"
  ab_Album :: TrackInfo__Result__About__Album

record TrackInfo__Result =
  re_About :: TrackInfo__Result__About
  re_Stat :: TrackInfo__Result__Stat

record TrackInfo =
  tr_Status :: uint64
  tr_Result :: TrackInfo__Result
  tr_ErrorCode :: uint64

text \<open>The general types.  \<open>go101TrackInfo\<close> fields are prefixed \<open>ct_\<close>.\<close>

record go101TrackInfo =
  ct_TrackUid :: uint64
  ct_Artist :: string
  ct_Title :: string
  ct_Album :: string
  ct_AlbumDate :: string
  ct_PlayURL :: string

record go101Channel =
  ch_Id :: uint64
  ch_Title :: string

record go101ChannelGroup =
  cg_Id :: uint64
  cg_Title :: string
  cg_Channels :: "uint64 \<rightharpoonup> go101Channel"

record go101 =
  ChannelGroups :: "uint64 \<rightharpoonup> go101ChannelGroup"
  ChannelGroupsUrl :: string
  CurrentGroup :: uint64
  CurrentChannel :: uint64
  CurrentTrack :: go101TrackInfo
  TrackUid :: uint64
  Status :: uint64
  NextFetch :: uint64

section \<open>The next fetch period\<close>

text \<open>
  The last block of the \<open>Try\<close> closure of \<open>FetchChannelInfo\<close>:
  \<^verbatim>\<open>diff := uint64(FinishSong - ServerTime)\<close>,
  \<^verbatim>\<open>if diff < 5 || diff > 1800 { diff = 5 } else { diff -= 3 }\<close>.
  The subtraction is the wrapping subtraction of \<open>uint64\<close>.
\<close>

definition next_fetch_period :: "uint64 \<Rightarrow> uint64 \<Rightarrow> uint64" where
  "next_fetch_period finishSong serverTime =
     (let diff = finishSong - serverTime
      in if diff < 5 \<or> diff > 1800 then 5 else diff - 3)"

section \<open>URL normalisation\<close>

text \<open>
  \<^verbatim>\<open>regexp.MustCompile(`http\:(.)`).FindStringSubmatch(filename)\<close>: only whether the
  result is \<open>nil\<close> is used.  The expression is not anchored, so a match may begin at any
  byte of the string; \<open>.\<close> matches any character but the line feed (no \<open>s\<close> flag).
  \<open>http_here\<close> is a match beginning at the first byte, \<open>FindStringSubmatch_http\<close>
  is \<open>res != nil\<close>.
\<close>

definition http_here :: "string \<Rightarrow> bool" where
  "http_here s =
     (prefix ''http:'' s \<and> (case drop 5 s of [] \<Rightarrow> False | d # _ \<Rightarrow> d \<noteq> CHR 0x0A))"

fun FindStringSubmatch_http :: "string \<Rightarrow> bool" where
  "FindStringSubmatch_http [] = False"
| "FindStringSubmatch_http (c # cs) = (http_here (c # cs) \<or> FindStringSubmatch_http cs)"

text \<open>
  \<^verbatim>\<open>len(re.FindAllStringSubmatch(s, -1))\<close> for a regular expression that is one literal,
  non-empty string \<open>pat\<close>: the number of matches found scanning from the left, each search
  resuming behind the previous match (the matches do not overlap).
\<close>

function FindAll_count :: "string \<Rightarrow> string \<Rightarrow> nat" where
  "FindAll_count pat [] = 0"
| "FindAll_count pat (c # cs) =
     (if pat \<noteq> [] \<and> prefix pat (c # cs)
      then Suc (FindAll_count pat (drop (length pat) (c # cs)))
      else FindAll_count pat cs)"
  by pat_completeness auto
termination
  by (relation "measure (\<lambda>(pat, s). length s)") (auto simp: neq_Nil_conv)

text \<open>\<^verbatim>\<open>strings.Replace(s, old, new, 1)\<close>: the leftmost occurrence of \<open>old\<close> is replaced.\<close>

fun Replace1 :: "string \<Rightarrow> string \<Rightarrow> string \<Rightarrow> string" where
  "Replace1 [] old new = (if old = [] then new else [])"
| "Replace1 (c # cs) old new =
     (if prefix old (c # cs) then new @ drop (length old) (c # cs)
      else c # Replace1 cs old new)"

definition musicdb_files :: string where
  "musicdb_files = ''/vardata/modules/musicdb/files/''"

text \<open>
  ``Provide case when got full URL'': \<^verbatim>\<open>prefix := ""; if res == nil { prefix = "http://101.ru" }\<close>,
  \<^verbatim>\<open>PlayURL = prefix + Filename\<close>.
\<close>

definition prefix_PlayURL :: "string \<Rightarrow> string" where
  "prefix_PlayURL filename =
     (let prefix = (if \<not> FindStringSubmatch_http filename then ''http://101.ru'' else [])
      in prefix @ filename)"

text \<open>
  ``Provide case with wrong URL'': \<^verbatim>\<open>if len(dres) == 2\<close> the first occurrence of the
  fragment is replaced by the empty string.
\<close>

definition fix_wrong_PlayURL :: "string \<Rightarrow> string" where
  "fix_wrong_PlayURL url =
     (if FindAll_count musicdb_files url = 2 then Replace1 url musicdb_files [] else url)"

definition normalize_PlayURL :: "string \<Rightarrow> string" where
  "normalize_PlayURL filename = fix_wrong_PlayURL (prefix_PlayURL filename)"

section \<open>Fetching the channel info\<close>

text \<open>
  What the network and the JSON decoder hand to \<open>FetchChannelInfo\<close>, in the order the
  code meets it: \<open>http.Get\<close> returned an error; or it returned a response (with its HTTP
  status code, which \<open>http.Get\<close> does not turn into an error and the code never reads)
  whose body could not be read; or whose body \<open>json.Unmarshal\<close> rejected; or whose body
  was decoded into a \<open>TrackInfo\<close>.
\<close>

datatype response =
    GetFailed Exception
  | ReadAllFailed nat Exception
  | UnmarshalFailed nat Exception
  | Unmarshalled nat TrackInfo

text \<open>
  The error handling type.  A closure over \<open>this\<close> is a function on the \<open>go101\<close> value;
  a closure that panics returns the panic value with the state as it was at the panic.
  \<open>Catch\<close> and \<open>Finally\<close> may be \<open>nil\<close>.
\<close>

record Block =
  Try :: "go101 \<Rightarrow> Exception option \<times> go101"
  Catch :: "(Exception \<Rightarrow> go101 \<Rightarrow> go101) option"
  Finally :: "(go101 \<Rightarrow> go101) option"

text \<open>
  \<open>Block.Do\<close>: the deferred recover runs first (it was deferred last) and hands a panic to
  \<open>Catch\<close>; then the deferred \<open>Finally\<close> runs.  Without \<open>Catch\<close> the panic goes on to
  the caller.
\<close>

definition Do :: "Block \<Rightarrow> go101 \<Rightarrow> Exception option \<times> go101" where
  "Do blk this =
     (let (r, this1) = Try blk this;
          (r2, this2) = (case (Catch blk, r) of
                           (Some catch, Some e) \<Rightarrow> (None, catch e this1)
                         | _ \<Rightarrow> (r, this1));
          this3 = (case Finally blk of Some fin \<Rightarrow> fin this2 | None \<Rightarrow> this2)
      in (r2, this3))"

text \<open>
  The \<open>Try\<close> closure of \<open>FetchChannelInfo\<close>.  Every panic (the three explicit ones and
  the index panic of \<open>Audio[0]\<close> on an empty list, raised while the right-hand side of the
  first assignment is evaluated) comes before the first assignment to \<open>this\<close>.
\<close>

definition FetchChannelInfo_Try :: "response \<Rightarrow> go101 \<Rightarrow> Exception option \<times> go101" where
  "FetchChannelInfo_Try resp this =
     (case resp of
        GetFailed err \<Rightarrow> (Some err, this)
      | ReadAllFailed code err \<Rightarrow> (Some err, this)
      | UnmarshalFailed code err \<Rightarrow> (Some err, this)
      | Unmarshalled code trackInfo \<Rightarrow>
          (let about = re_About (tr_Result trackInfo); stat = re_Stat (tr_Result trackInfo)
           in case ab_Audio about of
                [] \<Rightarrow> (Some ''runtime error: index out of range [0] with length 0'', this)
              | audio0 # _ \<Rightarrow>
                  (None,
                   this\<lparr>CurrentTrack :=
                          \<lparr>ct_TrackUid = au_TrackUid audio0,
                           ct_Artist = ab_Artist about,
                           ct_Title = ab_Title about,
                           ct_Album = al_Title (ab_Album about),
                           ct_AlbumDate = al_ReleaseDate (ab_Album about),
                           ct_PlayURL = normalize_PlayURL (au_Filename audio0)\<rparr>,
                        NextFetch :=
                          next_fetch_period (st_FinishSong stat) (st_ServerTime stat)\<rparr>)))"

definition FetchChannelInfo_Catch :: "Exception \<Rightarrow> go101 \<Rightarrow> go101" where
  "FetchChannelInfo_Catch e this = this\<lparr>NextFetch := 5\<rparr>"

definition FetchChannelInfo :: "response \<Rightarrow> go101 \<Rightarrow> go101" where
  "FetchChannelInfo resp this =
     snd (Do \<lparr>Try = FetchChannelInfo_Try resp,
              Catch = Some FetchChannelInfo_Catch,
              Finally = Some (\<lambda>this. this)\<rparr> this)"

section \<open>Playback control\<close>


datatype effect =
    PlayProcess string
  | MuteProcess
  | UnmuteProcess
  | StopProcess
  | Printf string string string "uint64 \<times> uint64"

record world =
  go101o :: go101
  effects :: "effect list"








section \<open>The playing loop\<close>


text \<open>
  The global \<open>go101o\<close> when the playing loop is entered: the zero value of the struct
  but for the directory and the choice of group and channel, which \<open>main\<close> has set.
\<close>

definition go101o_at_start ::
  "(uint64 \<rightharpoonup> go101ChannelGroup) \<Rightarrow> uint64 \<Rightarrow> uint64 \<Rightarrow> world" where
  "go101o_at_start groups gid cid =
     \<lparr>go101o =
        \<lparr>ChannelGroups = groups, ChannelGroupsUrl = [], CurrentGroup = gid,
         CurrentChannel = cid,
         CurrentTrack = \<lparr>ct_TrackUid = 0, ct_Artist = [], ct_Title = [], ct_Album = [],
                         ct_AlbumDate = [], ct_PlayURL = []\<rparr>,
         TrackUid = 0, Status = 0, NextFetch = 0\<rparr>,
      effects = []\<rparr>"




section \<open>The pause-aware sleep\<close>

text \<open>
  \<open>Sleep\<close>, with \<open>status t\<close> the value of \<open>this.Status\<close> that the loop reads after its
  \<open>t\<close>-th \<open>time.Sleep(time.Second)\<close> (\<open>t = 1, 2, ...\<close>).  The result is the number of
  one-second ticks consumed when the loop breaks; \<open>None\<close> when it never does.  The
  counter is a \<open>uint64\<close>.
\<close>

partial_function (option) Sleep_loop ::
  "(nat \<Rightarrow> uint64) \<Rightarrow> uint64 \<Rightarrow> nat \<Rightarrow> uint64 \<Rightarrow> nat option" where
  "Sleep_loop status s ticks counter =
     (let ticks1 = Suc ticks;
          counter1 = (if status ticks1 = STATUS_PLAY then counter + 1 else counter)
      in if counter1 \<ge> s then Some ticks1 else Sleep_loop status s ticks1 counter1)"

definition Sleep :: "(nat \<Rightarrow> uint64) \<Rightarrow> uint64 \<Rightarrow> nat option" where
  "Sleep status s = Sleep_loop status s 0 0"

text \<open>The number of ticks among the first \<open>n\<close> at which the status read is \<open>STATUS_PLAY\<close>.\<close>

definition playing_ticks :: "(nat \<Rightarrow> uint64) \<Rightarrow> nat \<Rightarrow> nat" where
  "playing_ticks status n = length (filter (\<lambda>t. status t = STATUS_PLAY) [1..<Suc n])"

text \<open>Playing at every tick but ticks 3, 4, 5 and 6, where the status is paused.\<close>

definition paused_3_to_6 :: "nat \<Rightarrow> uint64" where
  "paused_3_to_6 t = (if 3 \<le> t \<and> t \<le> 6 then STATUS_PAUSE else STATUS_PLAY)"

section \<open>Inputs of the statements\<close>



text \<open>A decoded document with one audio asset, for the concrete instances.\<close>

definition sample_TrackInfo :: "uint64 \<Rightarrow> string \<Rightarrow> uint64 \<Rightarrow> uint64 \<Rightarrow> TrackInfo" where
  "sample_TrackInfo uid filename finishSong serverTime =
     \<lparr>tr_Status = 1,
      tr_Result =
        \<lparr>re_About = \<lparr>ab_Title = ''Title'', ab_Artist = ''Artist'',
                      ab_Audio = [\<lparr>au_TrackUid = uid, au_Filename = filename\<rparr>],
                      ab_Album = \<lparr>al_Title = ''Album'', al_ReleaseDate = ''2001''\<rparr>\<rparr>,
         re_Stat = \<lparr>st_StartSong = 0, st_FinishSong = finishSong,
                     st_ServerTime = serverTime\<rparr>\<rparr>,
      tr_ErrorCode = 0\<rparr>"





text \<open>
  URLs for the concrete instances: the wrong URL of the comment in \<open>FetchChannelInfo\<close>
  (the fragment twice, one behind the other), a URL with the fragment three times, and a
  file name and a URL in which the fragment stands twice with, around its first
  occurrence, the two halves of a third.
\<close>

definition doubled_url :: string where
  "doubled_url =
     ''http://cdn.101.ru/vardata/modules/musicdb/files//vardata/modules/musicdb/files/x.mp3''"

definition tripled_url :: string where
  "tripled_url =
     ''http://cdn.101.ru/vardata/modules/musicdb/files//vardata/modules/musicdb/files//vardata/modules/musicdb/files/x.mp3''"

definition spliced_file :: string where
  "spliced_file =
     ''/vardata/modules//vardata/modules/musicdb/files/musicdb/files//vardata/modules/musicdb/files/x.mp3''"

definition spliced_url :: string where
  "spliced_url =
     ''http://cdn.101.ru/vardata/modules//vardata/modules/musicdb/files/musicdb/files//vardata/modules/musicdb/files/x.mp3''"


section \<open>Properties\<close>

subsection \<open>Facts about \<open>FetchChannelInfo\<close>\<close>

lemma FetchChannelInfo_decoded:
  "ab_Audio (re_About (tr_Result trackInfo)) = audio0 # rest \<Longrightarrow>
   FetchChannelInfo (Unmarshalled code trackInfo) this =
     this\<lparr>CurrentTrack :=
            \<lparr>ct_TrackUid = au_TrackUid audio0,
             ct_Artist = ab_Artist (re_About (tr_Result trackInfo)),
             ct_Title = ab_Title (re_About (tr_Result trackInfo)),
             ct_Album = al_Title (ab_Album (re_About (tr_Result trackInfo))),
             ct_AlbumDate = al_ReleaseDate (ab_Album (re_About (tr_Result trackInfo))),
             ct_PlayURL = normalize_PlayURL (au_Filename audio0)\<rparr>,
          NextFetch := next_fetch_period (st_FinishSong (re_Stat (tr_Result trackInfo)))
                                         (st_ServerTime (re_Stat (tr_Result trackInfo)))\<rparr>"
  by (simp add: FetchChannelInfo_def Do_def FetchChannelInfo_Try_def Let_def)


lemma next_fetch_period_unat:
  fixes finishSong serverTime :: uint64
  assumes "serverTime \<le> finishSong"
  shows "unat (next_fetch_period finishSong serverTime) =
           (let d = unat finishSong - unat serverTime
            in if d < 5 \<or> d > 1800 then 5 else d - 3)"
proof -
  have d: "unat (finishSong - serverTime) = unat finishSong - unat serverTime"
    using assms by (simp add: unat_sub)
  show ?thesis
    apply (simp add: next_fetch_period_def Let_def word_less_nat_alt d)
    apply (auto simp: unat_sub word_le_nat_alt d)
    done
qed

lemma next_fetch_period_range:
  "2 \<le> next_fetch_period finishSong serverTime \<and> next_fetch_period finishSong serverTime \<le> 1797"
  apply (simp add: next_fetch_period_def Let_def)
  apply (auto simp: word_le_nat_alt word_less_nat_alt unat_sub not_less)
  done

lemma next_fetch_period_wrap:
  fixes finishSong serverTime :: uint64
  assumes "finishSong < serverTime" "unat serverTime - unat finishSong < 2 ^ 64 - 1800"
  shows "unat (finishSong - serverTime) = 2 ^ 64 - (unat serverTime - unat finishSong) \<and>
         finishSong - serverTime > 1800 \<and>
         next_fetch_period finishSong serverTime = 5"
proof -
  have lt: "unat finishSong < unat serverTime" using assms(1) by (simp add: word_less_nat_alt)
  have b: "unat serverTime < 2 ^ 64" using unsigned_less [of serverTime, where ?'a = nat] by simp
  have u: "unat (finishSong - serverTime) = 2 ^ 64 - (unat serverTime - unat finishSong)"
    using lt b by (simp add: unat_sub_if_size word_size)
  have g: "finishSong - serverTime > 1800"
    using assms(2) lt u by (simp add: word_less_nat_alt)
  have "next_fetch_period finishSong serverTime = 5"
    using g by (simp add: next_fetch_period_def)
  with u g show ?thesis by simp
qed

subsection \<open>The interval policy\<close>

text \<open>
  Claim C1.  On a successful fetch with \<open>serverTime \<le> finishSong\<close> and
  \<open>diff = finishSong - serverTime\<close>, the next fetch period is 5 when \<open>diff < 5\<close> or
  \<open>diff > 1800\<close>, and \<open>diff - 3\<close> otherwise; it is never 0.  The differences
  0, 4, 5, 6, 1797, 1800, 1801, 900 give the periods 5, 5, 2, 3, 1794, 1797, 5, 897.
\<close>

theorem interval_policy:
  fixes finishSong serverTime :: uint64
  assumes "serverTime \<le> finishSong"
    and "ab_Audio (re_About (tr_Result trackInfo)) = audio0 # rest"
    and "st_FinishSong (re_Stat (tr_Result trackInfo)) = finishSong"
    and "st_ServerTime (re_Stat (tr_Result trackInfo)) = serverTime"
  shows "(let diff = unat finishSong - unat serverTime
          in unat (NextFetch (FetchChannelInfo (Unmarshalled code trackInfo) this)) =
               (if diff < 5 \<or> diff > 1800 then 5 else diff - 3)) \<and>
         NextFetch (FetchChannelInfo (Unmarshalled code trackInfo) this) \<noteq> 0 \<and>
         NextFetch (FetchChannelInfo (Unmarshalled code trackInfo) this) =
           next_fetch_period finishSong serverTime \<and>
         map (\<lambda>diff. next_fetch_period (serverTime + diff) serverTime)
             [0, 4, 5, 6, 1797, 1800, 1801, 900] = [5, 5, 2, 3, 1794, 1797, 5, 897]"
proof -
  have nf: "NextFetch (FetchChannelInfo (Unmarshalled code trackInfo) this) =
              next_fetch_period finishSong serverTime"
    using assms(2-4) by (simp add: FetchChannelInfo_decoded)
  have "2 \<le> next_fetch_period finishSong serverTime"
    using next_fetch_period_range by blast
  then have nz: "next_fetch_period finishSong serverTime \<noteq> 0"
    by auto
  have ex: "map (\<lambda>diff. next_fetch_period (serverTime + diff) serverTime)
             [0, 4, 5, 6, 1797, 1800, 1801, 900] = [5, 5, 2, 3, 1794, 1797, 5, 897]"
    by (simp add: next_fetch_period_def)
  show ?thesis
    using next_fetch_period_unat [OF assms(1)] nf nz ex by (simp add: Let_def)
qed

theorem interval_policy_witness:
  "(1000 :: uint64) \<le> 1900 \<and>
   unat (NextFetch (FetchChannelInfo (Unmarshalled 200 (sample_TrackInfo 7 ''/a.mp3'' 1900 1000))
                      (go101o (go101o_at_start Map.empty 1 2)))) = 897 \<and>
   NextFetch (FetchChannelInfo (Unmarshalled 200 (sample_TrackInfo 7 ''/a.mp3'' 1900 1000))
                      (go101o (go101o_at_start Map.empty 1 2))) \<noteq> 0"
  using interval_policy [of 1000 1900 "sample_TrackInfo 7 ''/a.mp3'' 1900 1000"
      "\<lparr>au_TrackUid = 7, au_Filename = ''/a.mp3''\<rparr>" "[]" 200
      "go101o (go101o_at_start Map.empty 1 2)"]
  by (simp add: sample_TrackInfo_def)

text \<open>
  Claim C9.  The difference is a subtraction of \<open>uint64\<close>: when \<open>serverTime\<close> exceeds
  \<open>finishSong\<close> by less than \<open>2 ^ 64 - 1800\<close>, it wraps modulo \<open>2 ^ 64\<close> to a value
  above 1800 and the next fetch period is 5.
\<close>

theorem reversed_timestamps_wrap:
  fixes finishSong serverTime :: uint64
  assumes "finishSong < serverTime"
    and "unat serverTime - unat finishSong < 2 ^ 64 - 1800"
    and "ab_Audio (re_About (tr_Result trackInfo)) = audio0 # rest"
    and "st_FinishSong (re_Stat (tr_Result trackInfo)) = finishSong"
    and "st_ServerTime (re_Stat (tr_Result trackInfo)) = serverTime"
  shows "unat (finishSong - serverTime) = 2 ^ 64 - (unat serverTime - unat finishSong) \<and>
         finishSong - serverTime > 1800 \<and>
         NextFetch (FetchChannelInfo (Unmarshalled code trackInfo) this) = 5"
proof -
  have nf: "NextFetch (FetchChannelInfo (Unmarshalled code trackInfo) this) =
              next_fetch_period finishSong serverTime"
    using assms(3-5) by (simp add: FetchChannelInfo_decoded)
  show ?thesis
    using next_fetch_period_wrap [OF assms(1,2)] nf by simp
qed

theorem reversed_timestamps_wrap_witness:
  "(1000 :: uint64) < 1001 \<and> unat (1001 :: uint64) - unat (1000 :: uint64) < 2 ^ 64 - 1800 \<and>
   unat ((1000 :: uint64) - 1001) = 2 ^ 64 - 1 \<and>
   NextFetch (FetchChannelInfo (Unmarshalled 200 (sample_TrackInfo 7 ''/a.mp3'' 1000 1001))
                      (go101o (go101o_at_start Map.empty 1 2))) = 5"
  using reversed_timestamps_wrap [of 1000 1001 "sample_TrackInfo 7 ''/a.mp3'' 1000 1001"
      "\<lparr>au_TrackUid = 7, au_Filename = ''/a.mp3''\<rparr>" "[]" 200
      "go101o (go101o_at_start Map.empty 1 2)"]
  by (simp add: sample_TrackInfo_def)


subsection \<open>The pause-aware sleep\<close>

lemma playing_ticks_0: "playing_ticks status 0 = 0"
  by (simp add: playing_ticks_def)

lemma playing_ticks_Suc:
  "playing_ticks status (Suc n) =
     playing_ticks status n + (if status (Suc n) = STATUS_PLAY then 1 else 0)"
  by (simp add: playing_ticks_def)

lemma Sleep_loop_later:
  "Sleep_loop status s ticks counter = Some n \<Longrightarrow> ticks < n"
proof (induction rule: Sleep_loop.raw_induct [rotated 1, consumes 1])
  case (1 loop status s ticks counter n)
  let ?c = "if status (Suc ticks) = STATUS_PLAY then counter + 1 else counter"
  show ?case
  proof (cases "s \<le> ?c")
    case True
    then have "n = Suc ticks" using "1.hyps" by (simp add: Let_def)
    then show ?thesis by simp
  next
    case False
    then have "loop status s (Suc ticks) ?c = Some n"
      using "1.hyps" by (simp add: Let_def)
    then have "Suc ticks < n" by (rule "1.IH")
    then show ?thesis by simp
  qed
qed

text \<open>One tick of the loop on the counter, read as a natural number.\<close>

lemma counter_tick:
  fixes counter s :: uint64
  assumes "unat counter = playing_ticks status ticks"
    and "ticks = 0 \<or> playing_ticks status ticks < unat s"
  shows "unat (if status (Suc ticks) = STATUS_PLAY then counter + 1 else counter) =
           playing_ticks status (Suc ticks)"
proof -
  have "unat counter + 1 < 2 ^ 64"
  proof (cases "ticks = 0")
    case True
    then show ?thesis using assms(1) by (simp add: playing_ticks_0)
  next
    case False
    then have "unat counter < unat s" using assms by simp
    moreover have "unat s < 2 ^ 64" using unsigned_less [of s, where ?'a = nat] by simp
    ultimately show ?thesis by simp
  qed
  then have "unat (counter + 1) = unat counter + 1"
    by (simp add: unat_add_lem [THEN iffD1])
  then show ?thesis
    using assms(1) by (simp add: playing_ticks_Suc)
qed

lemma Sleep_loop_returns:
  fixes counter s :: uint64
  assumes "unat counter = playing_ticks status ticks"
    and "ticks = 0 \<or> playing_ticks status ticks < unat s"
    and "ticks < n"
    and "unat s \<le> playing_ticks status n"
    and "\<forall>m. ticks < m \<and> m < n \<longrightarrow> playing_ticks status m < unat s"
  shows "Sleep_loop status s ticks counter = Some n"
  using assms
proof (induction "n - ticks" arbitrary: ticks counter)
  case 0
  then show ?case by simp
next
  case (Suc d)
  let ?c = "if status (Suc ticks) = STATUS_PLAY then counter + 1 else counter"
  have c: "unat ?c = playing_ticks status (Suc ticks)"
    using counter_tick [OF Suc.prems(1,2)] .
  show ?case
  proof (cases "Suc ticks = n")
    case True
    then have "s \<le> ?c" using c Suc.prems(4) by (simp add: word_le_nat_alt)
    then show ?thesis
      using True by (subst Sleep_loop.simps) (simp add: Let_def)
  next
    case False
    then have lt: "Suc ticks < n" using Suc.prems(3) by simp
    then have below: "playing_ticks status (Suc ticks) < unat s"
      using Suc.prems(5) by simp
    then have nle: "\<not> s \<le> ?c" using c by (simp add: word_le_nat_alt)
    have "Sleep_loop status s (Suc ticks) ?c = Some n"
    proof (rule Suc.hyps(1))
      show "d = n - Suc ticks" using Suc.hyps(2) by simp
      show "unat ?c = playing_ticks status (Suc ticks)" by (rule c)
      show "Suc ticks = 0 \<or> playing_ticks status (Suc ticks) < unat s" using below by simp
      show "Suc ticks < n" by (rule lt)
      show "unat s \<le> playing_ticks status n" by (rule Suc.prems(4))
      show "\<forall>m. Suc ticks < m \<and> m < n \<longrightarrow> playing_ticks status m < unat s"
        using Suc.prems(5) by simp
    qed
    then show ?thesis
      using nle by (subst Sleep_loop.simps) (simp add: Let_def)
  qed
qed

lemma Sleep_loop_returned:
  fixes counter s :: uint64
  assumes "Sleep_loop status s ticks counter = Some n"
    and "unat counter = playing_ticks status ticks"
    and "ticks = 0 \<or> playing_ticks status ticks < unat s"
  shows "ticks < n \<and> unat s \<le> playing_ticks status n \<and>
         (\<forall>m. ticks < m \<and> m < n \<longrightarrow> playing_ticks status m < unat s)"
  using assms
proof (induction rule: Sleep_loop.raw_induct [rotated 1, consumes 1])
  case (1 loop status s ticks counter n)
  let ?c = "if status (Suc ticks) = STATUS_PLAY then counter + 1 else counter"
  have c: "unat ?c = playing_ticks status (Suc ticks)"
    using counter_tick [OF "1.prems"] .
  show ?case
  proof (cases "s \<le> ?c")
    case True
    then have "n = Suc ticks" using "1.hyps" by (simp add: Let_def)
    moreover have "unat s \<le> playing_ticks status (Suc ticks)"
      using True c by (simp add: word_le_nat_alt)
    ultimately show ?thesis by auto
  next
    case False
    then have rec: "loop status s (Suc ticks) ?c = Some n"
      using "1.hyps" by (simp add: Let_def)
    have below: "playing_ticks status (Suc ticks) < unat s"
      using False c by (simp add: word_le_nat_alt)
    have ih: "Suc ticks < n \<and> unat s \<le> playing_ticks status n \<and>
         (\<forall>m. Suc ticks < m \<and> m < n \<longrightarrow> playing_ticks status m < unat s)"
      using "1.IH" [OF rec c] below by simp
    have "\<forall>m. ticks < m \<and> m < n \<longrightarrow> playing_ticks status m < unat s"
    proof (intro allI impI)
      fix m assume m: "ticks < m \<and> m < n"
      show "playing_ticks status m < unat s"
      proof (cases "m = Suc ticks")
        case True
        then show ?thesis using below by simp
      next
        case False
        then have "Suc ticks < m" using m by simp
        then show ?thesis using ih m by simp
      qed
    qed
    then show ?thesis using ih by simp
  qed
qed


text \<open>
  Claim C2.  At each one-second tick the counter of \<open>Sleep\<close> goes up by one when the
  status read is \<open>STATUS_PLAY\<close> and is left as it is otherwise, and \<open>Sleep\<close> returns at
  the first tick at which the counter has reached the target: it returns after \<open>n\<close> ticks
  exactly when \<open>n\<close> is the first tick count (from 1) with at least \<open>s\<close> playing ticks.  The
  counter does not go up at a tick that reads a status other than \<open>STATUS_PLAY\<close>.  With
  the target 10 and the status paused at ticks 3 to 6, \<open>Sleep\<close> returns after 14 ticks.
\<close>

theorem pause_aware_wait:
  "(Sleep status s = Some n \<longleftrightarrow>
      0 < n \<and> unat s \<le> playing_ticks status n \<and>
      (\<forall>m. 0 < m \<and> m < n \<longrightarrow> playing_ticks status m < unat s)) \<and>
   (status (Suc ticks) \<noteq> STATUS_PLAY \<longrightarrow>
      Sleep_loop status s ticks counter =
        (if s \<le> counter then Some (Suc ticks) else Sleep_loop status s (Suc ticks) counter)) \<and>
   (status (Suc ticks) = STATUS_PLAY \<longrightarrow>
      Sleep_loop status s ticks counter =
        (if s \<le> counter + 1 then Some (Suc ticks)
         else Sleep_loop status s (Suc ticks) (counter + 1))) \<and>
   Sleep paused_3_to_6 10 = Some 14"
proof -
  have only_if: "0 < n \<and> unat s \<le> playing_ticks status n \<and>
      (\<forall>m. 0 < m \<and> m < n \<longrightarrow> playing_ticks status m < unat s)"
    if "Sleep status s = Some n"
    using Sleep_loop_returned [of status s 0 0 n] that
    by (simp add: Sleep_def playing_ticks_0)
  have "if": "Sleep status s = Some n"
    if "0 < n \<and> unat s \<le> playing_ticks status n \<and>
      (\<forall>m. 0 < m \<and> m < n \<longrightarrow> playing_ticks status m < unat s)"
    using Sleep_loop_returns [of 0 status 0 s n] that
    by (simp add: Sleep_def playing_ticks_0)
  have paused: "Sleep_loop status s ticks counter =
        (if s \<le> counter then Some (Suc ticks) else Sleep_loop status s (Suc ticks) counter)"
    if "status (Suc ticks) \<noteq> STATUS_PLAY"
    using that by (subst Sleep_loop.simps) (simp add: Let_def)
  have playing: "Sleep_loop status s ticks counter =
        (if s \<le> counter + 1 then Some (Suc ticks)
         else Sleep_loop status s (Suc ticks) (counter + 1))"
    if "status (Suc ticks) = STATUS_PLAY"
    using that by (subst Sleep_loop.simps) (simp add: Let_def)
  have ex: "Sleep paused_3_to_6 10 = Some 14"
    by (simp add: Sleep_def Sleep_loop.simps paused_3_to_6_def STATUS_PLAY_def STATUS_PAUSE_def
        word_le_nat_alt)
  show ?thesis
    using only_if "if" paused playing ex by blast
qed

theorem pause_aware_wait_witness:
  "Sleep paused_3_to_6 10 = Some 14 \<and>
   unat (10 :: uint64) \<le> playing_ticks paused_3_to_6 14 \<and>
   playing_ticks paused_3_to_6 13 < unat (10 :: uint64) \<and>
   paused_3_to_6 (Suc 2) \<noteq> STATUS_PLAY \<and>
   Sleep_loop paused_3_to_6 10 2 2 = Sleep_loop paused_3_to_6 10 (Suc 2) 2 \<and>
   paused_3_to_6 (Suc 0) = STATUS_PLAY \<and>
   Sleep_loop paused_3_to_6 10 0 0 = Sleep_loop paused_3_to_6 10 (Suc 0) (0 + 1)"
proof -
  have p: "paused_3_to_6 (Suc 2) \<noteq> STATUS_PLAY" "paused_3_to_6 (Suc 0) = STATUS_PLAY"
    by (simp_all add: paused_3_to_6_def STATUS_PLAY_def STATUS_PAUSE_def)
  have le: "\<not> (10 :: uint64) \<le> 2" "\<not> (10 :: uint64) \<le> 0 + 1"
    by (simp_all add: word_le_nat_alt)
  have a: "Sleep paused_3_to_6 10 = Some 14"
    using pause_aware_wait [of paused_3_to_6 10 14 0 0] by blast
  have "0 < (14 :: nat) \<and> unat (10 :: uint64) \<le> playing_ticks paused_3_to_6 14 \<and>
      (\<forall>m. 0 < m \<and> m < 14 \<longrightarrow> playing_ticks paused_3_to_6 m < unat (10 :: uint64))"
    using pause_aware_wait [of paused_3_to_6 10 14 0 0] a by blast
  then have b: "unat (10 :: uint64) \<le> playing_ticks paused_3_to_6 14"
    and all: "\<forall>m. 0 < m \<and> m < 14 \<longrightarrow> playing_ticks paused_3_to_6 m < unat (10 :: uint64)"
    by blast+
  have b': "playing_ticks paused_3_to_6 13 < unat (10 :: uint64)"
    using all [rule_format, of 13] by simp
  have "Sleep_loop paused_3_to_6 10 2 2 =
      (if (10 :: uint64) \<le> 2 then Some (Suc 2) else Sleep_loop paused_3_to_6 10 (Suc 2) 2)"
    using pause_aware_wait [of paused_3_to_6 10 14 2 2] p(1) by blast
  then have c: "Sleep_loop paused_3_to_6 10 2 2 = Sleep_loop paused_3_to_6 10 (Suc 2) 2"
    using le(1) by simp
  have "Sleep_loop paused_3_to_6 10 0 0 =
      (if (10 :: uint64) \<le> 0 + 1 then Some (Suc 0)
       else Sleep_loop paused_3_to_6 10 (Suc 0) (0 + 1))"
    using pause_aware_wait [of paused_3_to_6 10 14 0 0] p(2) by blast
  then have d: "Sleep_loop paused_3_to_6 10 0 0 = Sleep_loop paused_3_to_6 10 (Suc 0) (0 + 1)"
    using le(2) by (simp only: if_False)
  show ?thesis using a b b' c d p by blast
qed

text \<open>
  Claim C10.  \<open>Sleep\<close> never returns without a tick: the test of the counter comes after
  the one-second sleep, so with the target 0 it returns after exactly one tick, whatever
  the status is, and no call returns after 0 ticks.
\<close>

theorem wait_consumes_a_tick:
  "Sleep status 0 = Some 1 \<and> Sleep status s \<noteq> Some 0"
proof -
  have "Sleep status 0 = Some 1"
    by (simp add: Sleep_def Sleep_loop.simps [of status 0 0 0])
  moreover have "Sleep status s \<noteq> Some 0"
    using Sleep_loop_later [of status s 0 0 0] by (auto simp: Sleep_def)
  ultimately show ?thesis by simp
qed

subsection \<open>Playback control\<close>



subsection \<open>The playing loop\<close>

















subsection \<open>URL normalisation\<close>

lemma http_here_iff:
  "http_here s \<longleftrightarrow> (\<exists>c v. s = ''http:'' @ c # v \<and> c \<noteq> CHR 0x0A)"
  by (auto simp: http_here_def prefix_def split: list.splits)

lemma FindStringSubmatch_http_iff:
  "FindStringSubmatch_http s \<longleftrightarrow> (\<exists>u c v. s = u @ ''http:'' @ c # v \<and> c \<noteq> CHR 0x0A)"
proof (induction s)
  case Nil
  then show ?case by simp
next
  case (Cons a s)
  show ?case
  proof
    assume "FindStringSubmatch_http (a # s)"
    then consider "http_here (a # s)" | "FindStringSubmatch_http s" by auto
    then show "\<exists>u c v. a # s = u @ ''http:'' @ c # v \<and> c \<noteq> CHR 0x0A"
    proof cases
      case 1
      then obtain c v where "a # s = [] @ ''http:'' @ c # v \<and> c \<noteq> CHR 0x0A"
        by (auto simp: http_here_iff)
      then show ?thesis by blast
    next
      case 2
      then obtain u c v where "s = u @ ''http:'' @ c # v \<and> c \<noteq> CHR 0x0A"
        using Cons.IH by blast
      then have "a # s = (a # u) @ ''http:'' @ c # v \<and> c \<noteq> CHR 0x0A" by simp
      then show ?thesis by blast
    qed
  next
    assume "\<exists>u c v. a # s = u @ ''http:'' @ c # v \<and> c \<noteq> CHR 0x0A"
    then obtain u c v where e: "a # s = u @ ''http:'' @ c # v" and c: "c \<noteq> CHR 0x0A"
      by blast
    show "FindStringSubmatch_http (a # s)"
    proof (cases u)
      case Nil
      then have "http_here (a # s)" using e c by (auto simp: http_here_iff)
      then show ?thesis by simp
    next
      case (Cons b u')
      then have "s = u' @ ''http:'' @ c # v" using e by simp
      then have "FindStringSubmatch_http s" using Cons.IH c by blast
      then show ?thesis by simp
    qed
  qed
qed

lemma FindAll_count_split:
  "pat \<noteq> [] \<Longrightarrow> FindAll_count pat s = Suc k \<Longrightarrow>
   \<exists>u v. s = u @ pat @ v \<and> Replace1 s pat [] = u @ v \<and> FindAll_count pat v = k \<and>
         (\<forall>i<length u. \<not> prefix pat (drop i s))"
proof (induction s)
  case Nil
  then show ?case by simp
next
  case (Cons c cs)
  show ?case
  proof (cases "prefix pat (c # cs)")
    case True
    then obtain v where v: "c # cs = pat @ v" by (auto simp: prefix_def)
    then have "drop (length pat) (c # cs) = v" by (metis append_eq_conv_conj)
    then have "FindAll_count pat v = k \<and> Replace1 (c # cs) pat [] = [] @ v"
      using Cons.prems True by simp
    then have "c # cs = [] @ pat @ v \<and> Replace1 (c # cs) pat [] = [] @ v \<and>
        FindAll_count pat v = k \<and> (\<forall>i<length ([] :: string). \<not> prefix pat (drop i (c # cs)))"
      using v by simp
    then show ?thesis by blast
  next
    case False
    then have "FindAll_count pat cs = Suc k" using Cons.prems by simp
    then obtain u v where uv: "cs = u @ pat @ v" "Replace1 cs pat [] = u @ v"
      "FindAll_count pat v = k" "\<forall>i<length u. \<not> prefix pat (drop i cs)"
      using Cons.IH Cons.prems(1) by blast
    have "\<forall>i<length (c # u). \<not> prefix pat (drop i (c # cs))"
    proof (intro allI impI)
      fix i assume "i < length (c # u)"
      then show "\<not> prefix pat (drop i (c # cs))"
        using False uv(4) by (cases i) auto
    qed
    then have "c # cs = (c # u) @ pat @ v \<and> Replace1 (c # cs) pat [] = (c # u) @ v \<and>
        FindAll_count pat v = k \<and> (\<forall>i<length (c # u). \<not> prefix pat (drop i (c # cs)))"
      using uv False by simp
    then show ?thesis by blast
  qed
qed

lemma FindAll_count_contains:
  "pat \<noteq> [] \<Longrightarrow> 1 \<le> FindAll_count pat (u @ pat @ v)"
proof (induction u)
  case Nil
  then obtain p ps where "pat = p # ps" by (cases pat) auto
  then show ?case by simp
next
  case (Cons c u)
  then show ?case by simp
qed

lemma FindAll_count_positive:
  "pat \<noteq> [] \<Longrightarrow> 1 \<le> FindAll_count pat s \<Longrightarrow> \<exists>u v. s = u @ pat @ v"
  using FindAll_count_split [of pat s "FindAll_count pat s - 1"] by auto

lemma FindAll_count_skip:
  "\<forall>i<length u. \<not> prefix pat (drop i (u @ v)) \<Longrightarrow>
   FindAll_count pat (u @ v) = FindAll_count pat v"
proof (induction u)
  case Nil
  then show ?case by simp
next
  case (Cons c u)
  have "\<not> prefix pat (c # u @ v)" using Cons.prems by force
  moreover have "\<forall>i<length u. \<not> prefix pat (drop i (u @ v))"
  proof (intro allI impI)
    fix i assume "i < length u"
    then have "\<not> prefix pat (drop (Suc i) ((c # u) @ v))" using Cons.prems by auto
    then show "\<not> prefix pat (drop i (u @ v))" by simp
  qed
  ultimately show ?case using Cons.IH by simp
qed


lemma Replace1_leftmost:
  "pat \<noteq> [] \<Longrightarrow> \<forall>i<length u. \<not> prefix pat (drop i (u @ pat @ v)) \<Longrightarrow>
   Replace1 (u @ pat @ v) pat [] = u @ v \<and>
   FindAll_count pat (u @ pat @ v) = Suc (FindAll_count pat v)"
proof (induction u)
  case Nil
  then obtain p ps where "pat = p # ps" by (cases pat) auto
  then show ?case by simp
next
  case (Cons c u)
  have "\<not> prefix pat (c # u @ pat @ v)" using Cons.prems(2) by force
  moreover have "\<forall>i<length u. \<not> prefix pat (drop i (u @ pat @ v))"
  proof (intro allI impI)
    fix i assume "i < length u"
    then have "\<not> prefix pat (drop (Suc i) ((c # u) @ pat @ v))" using Cons.prems(2) by auto
    then show "\<not> prefix pat (drop i (u @ pat @ v))" by simp
  qed
  ultimately show ?case using Cons.IH Cons.prems(1) by simp
qed

lemma musicdb_files_length: "musicdb_files \<noteq> [] \<and> length musicdb_files = 31"
  by (simp add: musicdb_files_def)

lemma fix_wrong_PlayURL_shorter:
  assumes "FindAll_count musicdb_files url = 2"
  shows "length (fix_wrong_PlayURL url) + 31 = length url"
proof -
  obtain u v where "url = u @ musicdb_files @ v" "Replace1 url musicdb_files [] = u @ v"
    using FindAll_count_split [of musicdb_files url 1] assms musicdb_files_length by auto
  then show ?thesis
    using assms musicdb_files_length by (simp add: fix_wrong_PlayURL_def)
qed

lemma prefix_PlayURL_has_marker: "FindStringSubmatch_http (prefix_PlayURL filename)"
proof (cases "FindStringSubmatch_http filename")
  case True
  then show ?thesis by (simp add: prefix_PlayURL_def)
next
  case False
  have "http_here (''http://101.ru'' @ filename)"
    by (simp add: http_here_def)
  then have "FindStringSubmatch_http (''http://101.ru'' @ filename)"
    by simp
  with False show ?thesis by (simp add: prefix_PlayURL_def)
qed

text \<open>
  Claim C5, as amended.  The origin \<^verbatim>\<open>http://101.ru\<close> is put in front of the file name
  exactly when the file name has no occurrence, at any position, of \<^verbatim>\<open>http:\<close> followed
  by a character other than a line feed.  In particular a file name that begins with
  \<^verbatim>\<open>http:\<close> followed by such a character is left as it is by this step.
\<close>

theorem prefix_unless_marker:
  "prefix_PlayURL filename =
     (if FindStringSubmatch_http filename then filename else ''http://101.ru'' @ filename) \<and>
   (FindStringSubmatch_http filename \<longleftrightarrow>
      (\<exists>u c v. filename = u @ ''http:'' @ c # v \<and> c \<noteq> CHR 0x0A)) \<and>
   (prefix ''http:'' filename \<and> 5 < length filename \<and> filename ! 5 \<noteq> CHR 0x0A \<longrightarrow>
      prefix_PlayURL filename = filename)"
proof -
  have a: "prefix_PlayURL filename =
     (if FindStringSubmatch_http filename then filename else ''http://101.ru'' @ filename)"
    by (simp add: prefix_PlayURL_def)
  have c: "prefix_PlayURL filename = filename"
    if h: "prefix ''http:'' filename \<and> 5 < length filename \<and> filename ! 5 \<noteq> CHR 0x0A"
  proof -
    from h obtain r where r: "filename = ''http:'' @ r" by (auto simp: prefix_def)
    with h obtain d v where "r = d # v" by (cases r) auto
    with r h have "filename = [] @ ''http:'' @ d # v \<and> d \<noteq> CHR 0x0A" by auto
    then have "FindStringSubmatch_http filename"
      unfolding FindStringSubmatch_http_iff by blast
    then show ?thesis by (simp add: a)
  qed
  show ?thesis using a c FindStringSubmatch_http_iff [of filename] by blast
qed

theorem prefix_unless_marker_witness:
  "prefix_PlayURL ''/a.mp3'' = ''http://101.ru/a.mp3'' \<and>
   prefix ''http:'' ''http://cdn.101.ru/b.mp3'' \<and>
   5 < length ''http://cdn.101.ru/b.mp3'' \<and>
   ''http://cdn.101.ru/b.mp3'' ! 5 \<noteq> CHR 0x0A \<and>
   prefix_PlayURL ''http://cdn.101.ru/b.mp3'' = ''http://cdn.101.ru/b.mp3'' \<and>
   prefix_PlayURL ''/a/http:b'' = ''/a/http:b''"
proof -
  have n: "\<not> FindStringSubmatch_http ''/a.mp3''"
    by (simp add: http_here_def)
  have a: "prefix_PlayURL ''/a.mp3'' = ''http://101.ru/a.mp3''"
    using prefix_unless_marker [of "''/a.mp3''"] n by simp
  have h: "prefix ''http:'' ''http://cdn.101.ru/b.mp3'' \<and>
      5 < length ''http://cdn.101.ru/b.mp3'' \<and> ''http://cdn.101.ru/b.mp3'' ! 5 \<noteq> CHR 0x0A"
    by simp
  have b: "prefix_PlayURL ''http://cdn.101.ru/b.mp3'' = ''http://cdn.101.ru/b.mp3''"
    using prefix_unless_marker [of "''http://cdn.101.ru/b.mp3''"] h by blast
  have "''/a/http:b'' = ''/a/'' @ ''http:'' @ CHR ''b'' # [] \<and> CHR ''b'' \<noteq> CHR 0x0A"
    by simp
  then have "\<exists>u c v. ''/a/http:b'' = u @ ''http:'' @ c # v \<and> c \<noteq> CHR 0x0A"
    by blast
  then have "FindStringSubmatch_http ''/a/http:b''"
    using prefix_unless_marker [of "''/a/http:b''"] by blast
  then have c: "prefix_PlayURL ''/a/http:b'' = ''/a/http:b''"
    using prefix_unless_marker [of "''/a/http:b''"] by simp
  show ?thesis using a h b c by blast
qed

text \<open>
  The claim C5 as it was stated asks for the marker at the head of the file name.  The file
  name \<^verbatim>\<open>/a/http:b\<close> does not begin with \<^verbatim>\<open>http:\<close>, and the origin is not put in
  front of it.
\<close>

theorem prefix_counterexample:
  "\<not> prefix ''http:'' ''/a/http:b'' \<and> prefix_PlayURL ''/a/http:b'' = ''/a/http:b''"
  by (simp add: prefix_PlayURL_def http_here_def)

text \<open>
  Claim C6, as amended.  When the fragment is found exactly twice in the URL, its leftmost
  occurrence is deleted: the URL gets shorter by the 31 bytes of the fragment, and the
  result still contains the fragment at least once; it contains it exactly once when no
  occurrence of the fragment in the result begins in the text that stood before the
  deleted occurrence.  When the fragment is found zero times, once, or three or more
  times, the URL is left as it is.
\<close>

theorem collapse_double_segment:
  "(FindAll_count musicdb_files url = 2 \<longrightarrow>
      fix_wrong_PlayURL url = Replace1 url musicdb_files [] \<and>
      length (fix_wrong_PlayURL url) + 31 = length url \<and>
      1 \<le> FindAll_count musicdb_files (fix_wrong_PlayURL url) \<and>
      (\<exists>u v. url = u @ musicdb_files @ v \<and> fix_wrong_PlayURL url = u @ v \<and>
             FindAll_count musicdb_files v = 1)) \<and>
   (FindAll_count musicdb_files url = 2 \<and> url = u @ musicdb_files @ v \<and>
    (\<forall>i<length u. \<not> prefix musicdb_files (drop i url)) \<and>
    (\<forall>i<length u. \<not> prefix musicdb_files (drop i (u @ v))) \<longrightarrow>
      fix_wrong_PlayURL url = u @ v \<and>
      FindAll_count musicdb_files (fix_wrong_PlayURL url) = 1) \<and>
   (FindAll_count musicdb_files url \<noteq> 2 \<longrightarrow> fix_wrong_PlayURL url = url)"
proof -
  have ne: "musicdb_files \<noteq> []" using musicdb_files_length by simp
  have two: "fix_wrong_PlayURL url = Replace1 url musicdb_files [] \<and>
      length (fix_wrong_PlayURL url) + 31 = length url \<and>
      1 \<le> FindAll_count musicdb_files (fix_wrong_PlayURL url) \<and>
      (\<exists>u v. url = u @ musicdb_files @ v \<and> fix_wrong_PlayURL url = u @ v \<and>
             FindAll_count musicdb_files v = 1)"
    if c: "FindAll_count musicdb_files url = 2"
  proof -
    have f: "fix_wrong_PlayURL url = Replace1 url musicdb_files []"
      using c by (simp add: fix_wrong_PlayURL_def)
    obtain u v where uv: "url = u @ musicdb_files @ v" "Replace1 url musicdb_files [] = u @ v"
      "FindAll_count musicdb_files v = 1"
      using FindAll_count_split [OF ne, of url 1] c by auto
    obtain u2 v2 where "v = u2 @ musicdb_files @ v2"
      using FindAll_count_positive [OF ne, of v] uv(3) by auto
    then have "fix_wrong_PlayURL url = (u @ u2) @ musicdb_files @ v2"
      using f uv(2) by simp
    then have "1 \<le> FindAll_count musicdb_files (fix_wrong_PlayURL url)"
      using FindAll_count_contains [OF ne, of "u @ u2" v2] by simp
    then show ?thesis
      using f uv fix_wrong_PlayURL_shorter [OF c] by auto
  qed
  have once: "fix_wrong_PlayURL url = u @ v \<and>
      FindAll_count musicdb_files (fix_wrong_PlayURL url) = 1"
    if h: "FindAll_count musicdb_files url = 2 \<and> url = u @ musicdb_files @ v \<and>
      (\<forall>i<length u. \<not> prefix musicdb_files (drop i url)) \<and>
      (\<forall>i<length u. \<not> prefix musicdb_files (drop i (u @ v)))"
  proof -
    have eq: "url = u @ musicdb_files @ v" using h by blast
    have "\<forall>i<length u. \<not> prefix musicdb_files (drop i url)" using h by blast
    then have lm: "\<forall>i<length u. \<not> prefix musicdb_files (drop i (u @ musicdb_files @ v))"
      unfolding eq .
    have l: "Replace1 url musicdb_files [] = u @ v \<and>
        FindAll_count musicdb_files url = Suc (FindAll_count musicdb_files v)"
      unfolding eq by (rule Replace1_leftmost [OF ne lm])
    have c2: "FindAll_count musicdb_files url = 2" using h by blast
    have "FindAll_count musicdb_files url = Suc (FindAll_count musicdb_files v)"
      using l by blast
    then have v: "FindAll_count musicdb_files v = 1" using c2 by simp
    have "FindAll_count musicdb_files (u @ v) = FindAll_count musicdb_files v"
      using FindAll_count_skip [of u musicdb_files v] h by blast
    then have "FindAll_count musicdb_files (u @ v) = 1" using v by simp
    moreover have "fix_wrong_PlayURL url = u @ v"
      using l c2 by (simp add: fix_wrong_PlayURL_def)
    ultimately show ?thesis by simp
  qed
  have other: "fix_wrong_PlayURL url = url" if "FindAll_count musicdb_files url \<noteq> 2"
    using that by (simp add: fix_wrong_PlayURL_def)
  show ?thesis using two once other by blast
qed

theorem collapse_double_segment_witness:
  "FindAll_count musicdb_files doubled_url = 2 \<and>
   fix_wrong_PlayURL doubled_url = ''http://cdn.101.ru/vardata/modules/musicdb/files/x.mp3'' \<and>
   FindAll_count musicdb_files (fix_wrong_PlayURL doubled_url) = 1 \<and>
   length (fix_wrong_PlayURL doubled_url) + 31 = length doubled_url \<and>
   FindAll_count musicdb_files tripled_url = 3 \<and>
   fix_wrong_PlayURL tripled_url = tripled_url \<and>
   FindAll_count musicdb_files ''http://101.ru/a.mp3'' = 0 \<and>
   fix_wrong_PlayURL ''http://101.ru/a.mp3'' = ''http://101.ru/a.mp3''"
proof -
  let ?u = "''http://cdn.101.ru''"
  let ?v = "''/vardata/modules/musicdb/files/x.mp3''"
  note twice = collapse_double_segment [of doubled_url ?u ?v, THEN conjunct1, THEN mp]
  note once = collapse_double_segment [of doubled_url ?u ?v, THEN conjunct2, THEN conjunct1, THEN mp]
  note other3 = collapse_double_segment [of tripled_url ?u ?v, THEN conjunct2, THEN conjunct2, THEN mp]
  note other0 = collapse_double_segment [of "''http://101.ru/a.mp3''" ?u ?v,
      THEN conjunct2, THEN conjunct2, THEN mp]
  have c2: "FindAll_count musicdb_files doubled_url = 2"
    by (simp add: doubled_url_def musicdb_files_def)
  have eq: "doubled_url = ?u @ musicdb_files @ ?v"
    by (simp add: doubled_url_def musicdb_files_def)
  have l1: "\<forall>i<length ?u. \<not> prefix musicdb_files (drop i doubled_url)"
    apply (simp add: doubled_url_def musicdb_files_def)
    apply (simp add: All_less_Suc)
    done
  have l2: "\<forall>i<length ?u. \<not> prefix musicdb_files (drop i (?u @ ?v))"
    apply (simp add: musicdb_files_def)
    apply (simp add: All_less_Suc)
    done
  have a: "length (fix_wrong_PlayURL doubled_url) + 31 = length doubled_url"
    using twice [OF c2] by (elim conjE)
  have b0: "fix_wrong_PlayURL doubled_url = ?u @ ?v \<and>
      FindAll_count musicdb_files (fix_wrong_PlayURL doubled_url) = 1"
    by (rule once) (intro conjI c2 eq l1 l2)
  have b1: "fix_wrong_PlayURL doubled_url =
      ''http://cdn.101.ru/vardata/modules/musicdb/files/x.mp3''"
    using b0 [THEN conjunct1] by simp
  have b2: "FindAll_count musicdb_files (fix_wrong_PlayURL doubled_url) = 1"
    by (rule b0 [THEN conjunct2])
  have c3: "FindAll_count musicdb_files tripled_url = 3"
    by (simp add: tripled_url_def musicdb_files_def)
  have n3: "FindAll_count musicdb_files tripled_url \<noteq> 2"
    unfolding c3 by simp
  have c: "fix_wrong_PlayURL tripled_url = tripled_url"
    using n3 by (rule other3)
  have c0: "FindAll_count musicdb_files ''http://101.ru/a.mp3'' = 0"
    by (simp add: musicdb_files_def)
  have n0: "FindAll_count musicdb_files ''http://101.ru/a.mp3'' \<noteq> 2"
    unfolding c0 by simp
  have d: "fix_wrong_PlayURL ''http://101.ru/a.mp3'' = ''http://101.ru/a.mp3''"
    using n0 by (rule other0)
  show ?thesis
    apply (intro conjI)
           apply (rule c2)
          apply (rule b1)
         apply (rule b2)
        apply (rule a)
       apply (rule c3)
      apply (rule c)
     apply (rule c0)
    apply (rule d)
    done
qed

text \<open>
  The claim C6 as it was stated promises exactly one occurrence in the result.  In the URL
  made from \<open>spliced_file\<close> the fragment is found twice, and deleting the first
  occurrence joins the text around it into a new one: the result has it twice again.
\<close>

theorem collapse_counterexample:
  "FindAll_count musicdb_files (prefix_PlayURL spliced_file) = 2 \<and>
   FindAll_count musicdb_files (fix_wrong_PlayURL (prefix_PlayURL spliced_file)) = 2"
  by (simp add: prefix_PlayURL_def fix_wrong_PlayURL_def spliced_file_def musicdb_files_def
        http_here_def)

text \<open>
  Claim C7, as amended.  Normalising the output of the normalisation gives that output
  back exactly when the output still has the marker \<^verbatim>\<open>http:\<close> followed by a character
  other than a line feed, and does not contain the fragment exactly twice.  This is so
  for every file name whose URL after prefixing does not contain the fragment exactly
  twice; for those the normalisation is the prefixing alone.
\<close>

theorem normalization_idempotent_iff:
  "(normalize_PlayURL (normalize_PlayURL filename) = normalize_PlayURL filename \<longleftrightarrow>
      FindStringSubmatch_http (normalize_PlayURL filename) \<and>
      FindAll_count musicdb_files (normalize_PlayURL filename) \<noteq> 2) \<and>
   (FindAll_count musicdb_files (prefix_PlayURL filename) \<noteq> 2 \<longrightarrow>
      normalize_PlayURL filename = prefix_PlayURL filename \<and>
      normalize_PlayURL (normalize_PlayURL filename) = normalize_PlayURL filename)"
proof -
  let ?out = "normalize_PlayURL filename"
  have len: "length (fix_wrong_PlayURL x) = length x \<or> length (fix_wrong_PlayURL x) + 31 = length x"
    for x
    using fix_wrong_PlayURL_shorter [of x] by (cases "FindAll_count musicdb_files x = 2")
      (simp_all add: fix_wrong_PlayURL_def)
  have fixed: "(fix_wrong_PlayURL x = x) = (FindAll_count musicdb_files x \<noteq> 2)" for x
  proof (cases "FindAll_count musicdb_files x = 2")
    case True
    then have "length (fix_wrong_PlayURL x) + 31 = length x" by (rule fix_wrong_PlayURL_shorter)
    then have "fix_wrong_PlayURL x \<noteq> x" by auto
    with True show ?thesis by simp
  next
    case False
    then show ?thesis by (simp add: fix_wrong_PlayURL_def)
  qed
  have iff: "(normalize_PlayURL ?out = ?out) =
      (FindStringSubmatch_http ?out \<and> FindAll_count musicdb_files ?out \<noteq> 2)"
  proof (cases "FindStringSubmatch_http ?out")
    case True
    then have "normalize_PlayURL ?out = fix_wrong_PlayURL ?out"
      by (simp add: normalize_PlayURL_def [of ?out] prefix_PlayURL_def)
    then show ?thesis using True fixed [of ?out] by simp
  next
    case False
    then have "normalize_PlayURL ?out = fix_wrong_PlayURL (''http://101.ru'' @ ?out)"
      by (simp add: normalize_PlayURL_def [of ?out] prefix_PlayURL_def)
    moreover have "length (fix_wrong_PlayURL (''http://101.ru'' @ ?out)) \<noteq> length ?out"
      using len [of "''http://101.ru'' @ ?out"] by auto
    ultimately have "normalize_PlayURL ?out \<noteq> ?out" by auto
    with False show ?thesis by simp
  qed
  have suff: "?out = prefix_PlayURL filename \<and> normalize_PlayURL ?out = ?out"
    if n: "FindAll_count musicdb_files (prefix_PlayURL filename) \<noteq> 2"
  proof -
    have o: "?out = prefix_PlayURL filename"
      using n by (simp add: normalize_PlayURL_def fix_wrong_PlayURL_def)
    then have "FindStringSubmatch_http ?out \<and> FindAll_count musicdb_files ?out \<noteq> 2"
      using n prefix_PlayURL_has_marker [of filename] by simp
    then show ?thesis using iff o by blast
  qed
  show ?thesis using iff suff by blast
qed

theorem normalization_idempotent_iff_witness:
  "FindAll_count musicdb_files (prefix_PlayURL ''/a.mp3'') \<noteq> 2 \<and>
   normalize_PlayURL ''/a.mp3'' = ''http://101.ru/a.mp3'' \<and>
   normalize_PlayURL (normalize_PlayURL ''/a.mp3'') = normalize_PlayURL ''/a.mp3'' \<and>
   normalize_PlayURL doubled_url = ''http://cdn.101.ru/vardata/modules/musicdb/files/x.mp3'' \<and>
   FindStringSubmatch_http (normalize_PlayURL doubled_url) \<and>
   FindAll_count musicdb_files (normalize_PlayURL doubled_url) \<noteq> 2 \<and>
   normalize_PlayURL (normalize_PlayURL doubled_url) = normalize_PlayURL doubled_url"
proof -
  note suff = normalization_idempotent_iff [of "''/a.mp3''", THEN conjunct2, THEN mp]
  note iff = normalization_idempotent_iff [of doubled_url, THEN conjunct1, THEN iffD2]
  have p: "prefix_PlayURL ''/a.mp3'' = ''http://101.ru/a.mp3''"
    by (simp add: prefix_PlayURL_def http_here_def)
  have c: "FindAll_count musicdb_files ''http://101.ru/a.mp3'' = 0"
    by (simp add: musicdb_files_def)
  have n: "FindAll_count musicdb_files (prefix_PlayURL ''/a.mp3'') \<noteq> 2"
    unfolding p c by simp
  have a1: "normalize_PlayURL ''/a.mp3'' = ''http://101.ru/a.mp3''"
    using suff [OF n, THEN conjunct1] unfolding p .
  have a2: "normalize_PlayURL (normalize_PlayURL ''/a.mp3'') = normalize_PlayURL ''/a.mp3''"
    by (rule suff [OF n, THEN conjunct2])
  have o: "normalize_PlayURL doubled_url =
      ''http://cdn.101.ru/vardata/modules/musicdb/files/x.mp3''"
    by (simp add: normalize_PlayURL_def prefix_PlayURL_def fix_wrong_PlayURL_def doubled_url_def
          musicdb_files_def http_here_def)
  have h1: "FindStringSubmatch_http (normalize_PlayURL doubled_url)"
    unfolding o by (simp add: http_here_def)
  have c1: "FindAll_count musicdb_files
      ''http://cdn.101.ru/vardata/modules/musicdb/files/x.mp3'' = 1"
    by (simp add: musicdb_files_def)
  have h2: "FindAll_count musicdb_files (normalize_PlayURL doubled_url) \<noteq> 2"
    unfolding o c1 by simp
  have b: "normalize_PlayURL (normalize_PlayURL doubled_url) = normalize_PlayURL doubled_url"
    by (rule iff) (intro conjI h1 h2)
  show ?thesis
    apply (intro conjI)
          apply (rule n)
         apply (rule a1)
        apply (rule a2)
       apply (rule o)
      apply (rule h1)
     apply (rule h2)
    apply (rule b)
    done
qed

text \<open>
  The claim C7 as it was stated holds for every file name.  For \<open>spliced_url\<close> the
  first normalisation leaves the fragment twice, and the second deletes one more.
\<close>

theorem normalization_counterexample:
  "normalize_PlayURL (normalize_PlayURL spliced_url) \<noteq> normalize_PlayURL spliced_url"
  by (simp add: normalize_PlayURL_def prefix_PlayURL_def fix_wrong_PlayURL_def spliced_url_def
        musicdb_files_def http_here_def)

end
